theory Spec2Isabelle
  imports Main
begin

section \<open>Numbers in template strings\<close>

text \<open>
  The TypeScript type \<open>number\<close> is modelled by \<open>int\<close>: page numbers and page sizes
  are integers.  A template literal \<^verbatim>\<open>`${n}`\<close> prints an integer in decimal, with a
  leading minus sign when it is negative (JavaScript does so for every integer below
  ten to the 21 in magnitude, and prints larger ones with an exponent).
\<close>

definition digit_char :: "nat \<Rightarrow> char" where
  "digit_char d = ''0123456789'' ! d"

fun nat_to_string :: "nat \<Rightarrow> string" where
  "nat_to_string n =
     (if n < 10 then [digit_char n]
      else nat_to_string (n div 10) @ [digit_char (n mod 10)])"

declare nat_to_string.simps [simp del]

definition number_to_string :: "int \<Rightarrow> string" where
  "number_to_string i =
     (if i < 0 then CHR ''-'' # nat_to_string (nat (- i)) else nat_to_string (nat i))"

section \<open>services/api.ts: the cache key\<close>

text \<open>\<^verbatim>\<open>return `page_${page}_${results}`;\<close>\<close>

definition getCacheKey :: "int \<Rightarrow> int \<Rightarrow> string" where
  "getCacheKey page pageSize =
     ''page_'' @ number_to_string page @ ''_'' @ number_to_string pageSize"

section \<open>entities/user.ts: the API response\<close>

text \<open>
  The services and the list component pass \<open>User\<close> objects through without reading a
  field of them, so the user type is the parameter \<open>'u\<close>.  \<open>ApiResponse\<close> has
  the user list and the metadata \<open>info\<close>, whose four fields are prefixed here because
  \<open>results\<close> names a field of both objects.
\<close>

record api_info =
  info_page :: int
  info_results :: int
  info_seed :: string
  info_version :: string

record 'u ApiResponse =
  results :: "'u list"
  info :: api_info

text \<open>
  A thrown value is either an instance of \<open>Error\<close>, with its message, or any other
  value (a thrown string, for example).  A promise of \<open>ApiResponse | undefined\<close> settles
  to a rejection \<open>Inl e\<close>, to \<open>undefined\<close> (\<open>Inr None\<close>) or to a response.
\<close>

datatype thrown = Error_obj string | Other_value string

type_synonym 'u outcome = "thrown + 'u ApiResponse option"

section \<open>services/api.ts: UserService\<close>

text \<open>
  The platform's \<open>fetch\<close>: the promise it returns rejects with a thrown value or
  resolves to a response, of which the code reads \<open>ok\<close>, \<open>status\<close> and \<open>json()\<close>.
  \<open>json()\<close> rejects or resolves to the decoded body.  \<open>ok\<close> is true exactly for the
  statuses 200 to 299.  The network is the function \<open>respond\<close> (what the n-th call of
  \<open>fetch\<close> settles to, given its URL) with the log of the URLs requested so far.
\<close>

record 'u response =
  status :: int
  json :: "thrown + 'u ApiResponse"

definition ok :: "'u response \<Rightarrow> bool" where
  "ok r \<longleftrightarrow> 200 \<le> status r \<and> status r \<le> 299"

record 'u network =
  respond :: "nat \<Rightarrow> string \<Rightarrow> thrown + 'u response"
  requests :: "string list"

definition fetch :: "'u network \<Rightarrow> string \<Rightarrow> (thrown + 'u response) \<times> 'u network" where
  "fetch net url =
     (respond net (length (requests net)) url, net\<lparr>requests := requests net @ [url]\<rparr>)"

text \<open>
  The options object is destructured with the defaults \<open>page = 1\<close> and
  \<open>results = 10\<close>; the functions below take the two numbers after that step.
  The parameter \<open>results\<close> is written \<open>pageSize\<close>, since \<open>results\<close> is the
  field of the response.
\<close>

definition destructure :: "int option \<Rightarrow> int option \<Rightarrow> int \<times> int" where
  "destructure page pageSize =
     (case page of None \<Rightarrow> 1 | Some p \<Rightarrow> p, case pageSize of None \<Rightarrow> 10 | Some r \<Rightarrow> r)"

definition request_url :: "int \<Rightarrow> int \<Rightarrow> string" where
  "request_url page pageSize =
     ''https://randomuser.me/api/?page='' @ number_to_string page
       @ ''&results='' @ number_to_string pageSize @ ''&seed=abc''"

text \<open>The body of the \<open>try\<close> block: \<open>Inl\<close> is the value it throws.\<close>

definition fetchUsers_try ::
  "'u network \<Rightarrow> int \<Rightarrow> int \<Rightarrow> (thrown + 'u ApiResponse) \<times> 'u network" where
  "fetchUsers_try net page pageSize =
     (case fetch net (request_url page pageSize) of
        (Inl e, net') \<Rightarrow> (Inl e, net')
      | (Inr response, net') \<Rightarrow>
          if \<not> ok response
          then (Inl (Error_obj (''HTTP error! status: '' @ number_to_string (status response))),
                net')
          else (json response, net'))"

text \<open>
  The \<open>catch\<close> block rethrows an instance of \<open>Error\<close>, after logging its message
  to the console, which is not modelled; after any other value the function runs to
  its end and resolves to \<open>undefined\<close>.
\<close>

definition UserService_fetchUsers ::
  "'u network \<Rightarrow> int \<Rightarrow> int \<Rightarrow> 'u outcome \<times> 'u network" where
  "UserService_fetchUsers net page pageSize =
     (case fetchUsers_try net page pageSize of
        (Inr r, net') \<Rightarrow> (Inr (Some r), net')
      | (Inl err, net') \<Rightarrow>
          (case err of
             Error_obj message \<Rightarrow> (Inl err, net')
           | Other_value v \<Rightarrow> (Inr None, net')))"

section \<open>The platform's timers\<close>

text \<open>
  \<open>setTimeout\<close> does not take every delay as it is given.  In Node.js, whose timer
  type the repository names, a delay that is not between 1 and 2147483647
  milliseconds is set to 1 millisecond.  Browsers agree with it inside that range and
  differ outside it.  Delays are whole numbers of milliseconds.
\<close>

definition timer_delay :: "int \<Rightarrow> nat" where
  "timer_delay after = (if 1 \<le> after \<and> after \<le> 2147483647 then nat after else 1)"

section \<open>services/api.ts: CachingUserService\<close>

text \<open>
  A wrapped service is any function with the contract of \<open>fetchUsers\<close>: it takes its
  own state \<open>'w\<close>, the page and the page size, and gives an outcome and its new state.

  The state of the decorator is its \<open>cache\<close> map and \<open>cacheTTL\<close>, the state
  \<open>inner\<close> of the wrapped service, and what the platform holds for it: the clock
  \<open>now\<close> in milliseconds and the pending \<open>setTimeout\<close> callbacks, each with its due time
  and the key it deletes.  The code keeps no handle of a timer.  \<open>cacheTTL\<close> is
  the number the constructor was given, of any sign and size; the timer is due
  \<open>timer_delay\<close> of it after the call.  \<open>calls\<close> logs every invocation of the
  wrapped service.

  A call of \<open>fetchUsers\<close> is one step at the instant the call completes: time passes
  between steps, by \<open>advance\<close>.  On a miss the key is absent when the call starts and
  timers only delete, so the key is still absent when the wrapped service answers.
\<close>

type_synonym ('u, 'w) service = "'w \<Rightarrow> int \<Rightarrow> int \<Rightarrow> 'u outcome \<times> 'w"

record ('u, 'w) CachingUserService =
  cache :: "string \<rightharpoonup> 'u list"
  cacheTTL :: int
  timers :: "(nat \<times> string) list"
  now :: nat
  inner :: 'w
  calls :: "(int \<times> int) list"

definition new_CachingUserService :: "'w \<Rightarrow> int \<Rightarrow> ('u, 'w) CachingUserService" where
  "new_CachingUserService w ttl =
     \<lparr>cache = Map.empty, cacheTTL = ttl, timers = [], now = 0, inner = w, calls = []\<rparr>"

text \<open>\<^verbatim>\<open>setTimeout(() => { this.cache.delete(key); }, this.cacheTTL);\<close>\<close>

definition setupCacheExpiration ::
  "string \<Rightarrow> ('u, 'w) CachingUserService \<Rightarrow> ('u, 'w) CachingUserService" where
  "setupCacheExpiration key this =
     this\<lparr>timers := timers this @ [(now this + timer_delay (cacheTTL this), key)]\<rparr>"

definition CachingUserService_fetchUsers ::
  "('u, 'w) service \<Rightarrow> ('u, 'w) CachingUserService \<Rightarrow> int \<Rightarrow> int
     \<Rightarrow> 'u outcome \<times> ('u, 'w) CachingUserService" where
  "CachingUserService_fetchUsers service this page pageSize =
     (let cacheKey = getCacheKey page pageSize in
      case cache this cacheKey of
        Some stored \<Rightarrow>
          (Inr (Some \<lparr>results = stored,
                      info = \<lparr>info_page = page, info_results = pageSize,
                              info_seed = ''abc'', info_version = ''1.0''\<rparr>\<rparr>),
           this)
      | None \<Rightarrow>
          (case service (inner this) page pageSize of
             (response, w) \<Rightarrow>
               (let this1 = this\<lparr>inner := w, calls := calls this @ [(page, pageSize)]\<rparr> in
                case response of
                  Inl e \<Rightarrow> (Inl e, this1)
                | Inr None \<Rightarrow> (Inr None, this1)
                | Inr (Some r) \<Rightarrow>
                    (Inr (Some r),
                     setupCacheExpiration cacheKey
                       (this1\<lparr>cache := (cache this1)(cacheKey \<mapsto> results r)\<rparr>)))))"

definition clearCache :: "('u, 'w) CachingUserService \<Rightarrow> ('u, 'w) CachingUserService" where
  "clearCache this = this\<lparr>cache := Map.empty\<rparr>"

definition invalidatePage ::
  "('u, 'w) CachingUserService \<Rightarrow> int \<Rightarrow> int \<Rightarrow> ('u, 'w) CachingUserService" where
  "invalidatePage this page pageSize =
     (let key = getCacheKey page pageSize in this\<lparr>cache := (cache this)(key := None)\<rparr>)"

text \<open>
  The callback of an expiry timer, and the passing of \<open>d\<close> milliseconds: the timers
  that are due by then leave the pending list and run in the order of their due
  times, those set first going first among equals.
\<close>

definition expire :: "string \<Rightarrow> ('u, 'w) CachingUserService \<Rightarrow> ('u, 'w) CachingUserService" where
  "expire key this = this\<lparr>cache := (cache this)(key := None)\<rparr>"

definition advance :: "nat \<Rightarrow> ('u, 'w) CachingUserService \<Rightarrow> ('u, 'w) CachingUserService" where
  "advance d this =
     (let t = now this + d;
          due = sort_key fst (filter (\<lambda>timer. fst timer \<le> t) (timers this));
          pending = filter (\<lambda>timer. \<not> fst timer \<le> t) (timers this)
      in fold (\<lambda>timer. expire (snd timer)) due (this\<lparr>now := t, timers := pending\<rparr>))"

text \<open>
  A history of the decorator: calls of its three methods and the passing of time,
  from \<open>new_CachingUserService\<close> on.  \<open>timed\<close> is the invariant of the histories:
  every key in the map has a pending timer that is due within one TTL.
\<close>

datatype action = FetchUsers int int | InvalidatePage int int | ClearCache | Advance nat

fun perform ::
  "('u, 'w) service \<Rightarrow> action \<Rightarrow> ('u, 'w) CachingUserService \<Rightarrow> ('u, 'w) CachingUserService" where
  "perform service (FetchUsers page pageSize) this =
     snd (CachingUserService_fetchUsers service this page pageSize)"
| "perform service (InvalidatePage page pageSize) this = invalidatePage this page pageSize"
| "perform service ClearCache this = clearCache this"
| "perform service (Advance d) this = advance d this"

definition run ::
  "('u, 'w) service \<Rightarrow> action list \<Rightarrow> ('u, 'w) CachingUserService \<Rightarrow> ('u, 'w) CachingUserService" where
  "run service actions this = fold (perform service) actions this"

definition timed :: "('u, 'w) CachingUserService \<Rightarrow> bool" where
  "timed this \<longleftrightarrow>
     (\<forall>k. cache this k \<noteq> None \<longrightarrow>
        (\<exists>at. (at, k) \<in> set (timers this) \<and> at \<le> now this + timer_delay (cacheTTL this)))"

section \<open>utils/debounce.ts\<close>

text \<open>
  The closure of a debounced function holds \<open>wait\<close> and the variable \<open>timeout\<close>,
  which is \<open>undefined\<close> at first and then the handle of the timer set last.  The
  platform holds the timers that were set and have neither fired nor been cleared:
  \<open>scheduled\<close> lists them in the order they were set, each with its handle, its
  due time and the arguments that its \<open>later\<close> closure has captured.  \<open>setTimeout\<close>
  adds a timer under a fresh handle and cancels none; \<open>clearTimeout\<close> removes the
  timer of the handle it is given and does nothing for \<open>undefined\<close> or a handle
  that is not scheduled.  \<open>clock\<close> is the platform's time and \<open>invoked\<close> logs
  every call \<open>func(...args)\<close> with the time its timer was due at.
\<close>

record 'a debounced =
  wait :: int
  timeout :: "nat option"
  scheduled :: "(nat \<times> nat \<times> 'a) list"
  next_handle :: nat
  clock :: nat
  invoked :: "(nat \<times> 'a) list"

definition debounce :: "int \<Rightarrow> 'a debounced" where
  "debounce w =
     \<lparr>wait = w, timeout = None, scheduled = [], next_handle = 1, clock = 0, invoked = []\<rparr>"

definition clearTimeout :: "nat option \<Rightarrow> 'a debounced \<Rightarrow> 'a debounced" where
  "clearTimeout handle s =
     (case handle of
        None \<Rightarrow> s
      | Some h \<Rightarrow> s\<lparr>scheduled := filter (\<lambda>timer. fst timer \<noteq> h) (scheduled s)\<rparr>)"

definition setTimeout :: "'a \<Rightarrow> int \<Rightarrow> 'a debounced \<Rightarrow> nat \<times> 'a debounced" where
  "setTimeout args delay s =
     (next_handle s,
      s\<lparr>scheduled := scheduled s @ [(next_handle s, clock s + timer_delay delay, args)],
        next_handle := next_handle s + 1\<rparr>)"

definition executedFunction :: "'a \<Rightarrow> 'a debounced \<Rightarrow> 'a debounced" where
  "executedFunction args s =
     (let s1 = clearTimeout (timeout s) s in
      case setTimeout args (wait s1) s1 of
        (handle, s2) \<Rightarrow> s2\<lparr>timeout := Some handle\<rparr>)"

text \<open>
  \<open>later\<close> reads the variable \<open>timeout\<close> when it runs, so it clears the timer that
  was set last, and then calls \<open>func\<close>.
\<close>

definition later :: "nat \<Rightarrow> 'a \<Rightarrow> 'a debounced \<Rightarrow> 'a debounced" where
  "later at args s =
     (let s1 = clearTimeout (timeout s) s in s1\<lparr>invoked := invoked s1 @ [(at, args)]\<rparr>)"

text \<open>
  The passing of \<open>d\<close> milliseconds.  The timers due by then run in the order of
  their due times, those set first going first among equals; a timer that an earlier
  callback has cleared does not run.
\<close>

definition fire :: "nat \<times> nat \<times> 'a \<Rightarrow> 'a debounced \<Rightarrow> 'a debounced" where
  "fire timer s =
     (case timer of
        (handle, at, args) \<Rightarrow>
          if handle \<in> set (map fst (scheduled s))
          then later at args
                 (s\<lparr>scheduled := filter (\<lambda>other. fst other \<noteq> handle) (scheduled s)\<rparr>)
          else s)"

definition elapse :: "nat \<Rightarrow> 'a debounced \<Rightarrow> 'a debounced" where
  "elapse d s =
     (let t = clock s + d;
          due = sort_key (\<lambda>timer. fst (snd timer))
                  (filter (\<lambda>timer. fst (snd timer) \<le> t) (scheduled s))
      in fold fire due (s\<lparr>clock := t\<rparr>))"

text \<open>
  A burst of calls: before each call the given time passes, then the debounced
  function is called with the given arguments.  A history is any sequence of calls
  and pauses.  \<open>tidy\<close> is the invariant of the histories: at most one timer is
  scheduled, and \<open>timeout\<close> holds its handle.
\<close>

fun burst :: "(nat \<times> 'a) list \<Rightarrow> 'a debounced \<Rightarrow> 'a debounced" where
  "burst [] s = s"
| "burst ((gap, args) # rest) s = burst rest (executedFunction args (elapse gap s))"

datatype 'a event = Call 'a | Pause nat

fun step :: "'a event \<Rightarrow> 'a debounced \<Rightarrow> 'a debounced" where
  "step (Call args) s = executedFunction args s"
| "step (Pause d) s = elapse d s"

definition play :: "'a event list \<Rightarrow> 'a debounced \<Rightarrow> 'a debounced" where
  "play events s = fold step events s"

definition tidy :: "'a debounced \<Rightarrow> bool" where
  "tidy s \<longleftrightarrow>
     scheduled s = [] \<or> (\<exists>h at args. scheduled s = [(h, at, args)] \<and> timeout s = Some h)"

section \<open>components/UserList.vue\<close>

text \<open>
  The refs of the component.  \<open>loadUsers\<close> runs up to its \<open>await\<close>
  (\<open>loadUsers_start\<close>, which gives the request it makes, if any) and, when the
  service has answered, from there to its end (\<open>loadUsers_resume\<close>).
\<close>

record 'u UserList =
  users :: "'u list"
  currentPage :: int
  loading :: bool
  error :: "string option"
  hasMore :: bool

definition new_UserList :: "'u UserList" where
  "new_UserList =
     \<lparr>users = [], currentPage = 1, loading = False, error = None, hasMore = True\<rparr>"

definition loadUsers_start :: "'u UserList \<Rightarrow> 'u UserList \<times> (int \<times> int) option" where
  "loadUsers_start st =
     (if loading st \<or> \<not> hasMore st then (st, None)
      else (st\<lparr>loading := True, error := None\<rparr>, Some (currentPage st, 10)))"

definition loadUsers_resume :: "'u UserList \<Rightarrow> 'u outcome \<Rightarrow> 'u UserList" where
  "loadUsers_resume st answer =
     (let st1 =
        (case answer of
           Inr (Some response) \<Rightarrow>
             if length (results response) = 0 then st\<lparr>hasMore := False\<rparr>
             else st\<lparr>currentPage := currentPage st + 1,
                     users := users st @ results response\<rparr>
         | Inr None \<Rightarrow> st
         | Inl err \<Rightarrow>
             st\<lparr>error := Some (case err of
                                  Error_obj message \<Rightarrow> message
                                | Other_value v \<Rightarrow> ''An error occurred while loading users''),
                hasMore := False\<rparr>)
      in st1\<lparr>loading := False\<rparr>)"

definition loadUsers :: "'u UserList \<Rightarrow> 'u outcome \<Rightarrow> 'u UserList" where
  "loadUsers st answer =
     (case loadUsers_start st of
        (st', None) \<Rightarrow> st'
      | (st', Some request) \<Rightarrow> loadUsers_resume st' answer)"

definition retryLoading :: "'u UserList \<Rightarrow> 'u UserList \<times> (int \<times> int) option" where
  "retryLoading st = loadUsers_start (st\<lparr>error := None, hasMore := True\<rparr>)"

section \<open>Example inputs\<close>

text \<open>
  A page as the upstream API answers it, a service that always answers it, a service
  that always fails, and a decorator with a TTL of one second, before and after
  its first call for page 1.
\<close>

definition upstream_page :: "string ApiResponse" where
  "upstream_page =
     \<lparr>results = [''u1'', ''u2''],
      info = \<lparr>info_page = 1, info_results = 10, info_seed = ''abc'', info_version = ''1.4''\<rparr>\<rparr>"

definition upstream_service :: "(string, unit) service" where
  "upstream_service w page pageSize = (Inr (Some upstream_page), w)"

definition failing_service :: "(string, unit) service" where
  "failing_service w page pageSize = (Inl (Error_obj ''HTTP error! status: 500''), w)"

definition fresh :: "(string, unit) CachingUserService" where
  "fresh = new_CachingUserService () 1000"

definition loaded :: "(string, unit) CachingUserService" where
  "loaded = snd (CachingUserService_fetchUsers upstream_service fresh 1 10)"

definition loaded_two :: "(string, unit) CachingUserService" where
  "loaded_two = snd (CachingUserService_fetchUsers upstream_service loaded 2 10)"

definition flaky_network :: "string network" where
  "flaky_network =
     \<lparr>respond = (\<lambda>n url.
         if n = 0 then Inr \<lparr>status = 500, json = Inl (Error_obj ''Unexpected end of JSON input'')\<rparr>
         else Inr \<lparr>status = 200, json = Inr upstream_page\<rparr>),
      requests = []\<rparr>"

definition offline_network :: "string network" where
  "offline_network = \<lparr>respond = (\<lambda>n url. Inl (Other_value ''offline'')), requests = []\<rparr>"

definition offline_decorator :: "(string, string network) CachingUserService" where
  "offline_decorator = new_CachingUserService offline_network 1000"



text \<open>
  The list component while its first load is in flight, and the debounced scroll
  handler of the component, new and 50 ms after a first scroll event.
\<close>

definition in_flight :: "string UserList" where
  "in_flight = fst (loadUsers_start new_UserList)"

definition handleScroll :: "string debounced" where
  "handleScroll = debounce 200"

definition scrolling :: "string debounced" where
  "scrolling = play [Call ''e0'', Pause 50] handleScroll"

section \<open>Decimal printing is injective\<close>

lemma digit_char_inject:
  assumes "a < 10" and "b < 10" and "digit_char a = digit_char b"
  shows "a = b"
proof -
  have "distinct ''0123456789''" by simp
  with assms show ?thesis
    by (simp add: digit_char_def nth_eq_iff_index_eq)
qed

lemma nat_to_string_nonempty: "nat_to_string n \<noteq> []"
  by (subst nat_to_string.simps) simp

lemma digit_char_cases:
  "d < 10 \<Longrightarrow> digit_char d \<in> set ''0123456789''"
  unfolding digit_char_def by (rule nth_mem) simp

lemma nat_to_string_digits: "set (nat_to_string n) \<subseteq> set ''0123456789''"
proof (induction n rule: nat_to_string.induct)
  case (1 n)
  show ?case
  proof (cases "n < 10")
    case True
    then show ?thesis
      using digit_char_cases [of n] by (subst nat_to_string.simps) simp
  next
    case False
    have "n mod 10 < 10" by simp
    from digit_char_cases [OF this] 1 [OF False] False show ?thesis
      by (subst nat_to_string.simps) simp
  qed
qed

lemma nat_to_string_inject:
  "nat_to_string n = nat_to_string m \<Longrightarrow> n = m"
proof (induction n arbitrary: m rule: nat_to_string.induct)
  case (1 n)
  show ?case
  proof (cases "n < 10")
    case small_n: True
    show ?thesis
    proof (cases "m < 10")
      case True
      with small_n 1(2) show ?thesis
        by (simp add: nat_to_string.simps [of n] nat_to_string.simps [of m]
            digit_char_inject)
    next
      case False
      with small_n 1(2) nat_to_string_nonempty [of "m div 10"] show ?thesis
        by (simp add: nat_to_string.simps [of n] nat_to_string.simps [of m]
            Cons_eq_append_conv)
    qed
  next
    case big_n: False
    show ?thesis
    proof (cases "m < 10")
      case True
      with big_n 1(2) nat_to_string_nonempty [of "n div 10"] show ?thesis
        by (simp add: nat_to_string.simps [of n] nat_to_string.simps [of m]
            append_eq_Cons_conv)
    next
      case False
      with big_n 1(2)
      have q: "nat_to_string (n div 10) = nat_to_string (m div 10)"
        and r: "digit_char (n mod 10) = digit_char (m mod 10)"
        by (simp_all add: nat_to_string.simps [of n] nat_to_string.simps [of m])
      from 1(1) [OF big_n q] have "n div 10 = m div 10" .
      moreover from r have "n mod 10 = m mod 10"
        by (intro digit_char_inject) simp_all
      ultimately show ?thesis
        by (metis div_mult_mod_eq)
    qed
  qed
qed

lemma number_to_string_no_underscore: "CHR ''_'' \<notin> set (number_to_string i)"
  using nat_to_string_digits [of "nat i"] nat_to_string_digits [of "nat (- i)"]
  by (auto simp: number_to_string_def)

lemma nat_to_string_no_minus: "hd (nat_to_string n) \<noteq> CHR ''-''"
proof -
  have "hd (nat_to_string n) \<in> set (nat_to_string n)"
    by (simp add: nat_to_string_nonempty)
  with nat_to_string_digits [of n] show ?thesis by auto
qed

lemma number_to_string_inject:
  assumes "number_to_string i = number_to_string j"
  shows "i = j"
proof (cases "i < 0")
  case neg_i: True
  show ?thesis
  proof (cases "j < 0")
    case True
    with neg_i assms have "nat (- i) = nat (- j)"
      by (simp add: number_to_string_def nat_to_string_inject)
    with neg_i True show ?thesis by simp
  next
    case False
    with neg_i assms have "hd (nat_to_string (nat j)) = CHR ''-''"
      by (simp add: number_to_string_def) (metis list.sel(1))
    with nat_to_string_no_minus show ?thesis by blast
  qed
next
  case pos_i: False
  show ?thesis
  proof (cases "j < 0")
    case True
    with pos_i assms have "hd (nat_to_string (nat i)) = CHR ''-''"
      by (simp add: number_to_string_def)
    with nat_to_string_no_minus show ?thesis by blast
  next
    case False
    with pos_i assms have "nat i = nat j"
      by (simp add: number_to_string_def nat_to_string_inject)
    with pos_i False show ?thesis by simp
  qed
qed

lemma split_at_separator:
  "c \<notin> set a \<Longrightarrow> c \<notin> set a' \<Longrightarrow> a @ c # b = a' @ c # b'
     \<Longrightarrow> a = a' \<and> b = b'"
proof (induction a arbitrary: a')
  case Nil
  then show ?case by (cases a') auto
next
  case (Cons x a)
  then show ?case by (cases a') auto
qed

lemma getCacheKey_inject:
  assumes "getCacheKey p r = getCacheKey p' r'"
  shows "p = p' \<and> r = r'"
proof -
  from assms have
    "number_to_string p @ CHR ''_'' # number_to_string r =
     number_to_string p' @ CHR ''_'' # number_to_string r'"
    by (simp add: getCacheKey_def)
  from split_at_separator [OF number_to_string_no_underscore
      number_to_string_no_underscore this]
  show ?thesis by (simp add: number_to_string_inject)
qed

lemma getCacheKey_eq_iff:
  "getCacheKey p r = getCacheKey p' r' \<longleftrightarrow> p = p' \<and> r = r'"
  using getCacheKey_inject by blast

section \<open>The steps of the caching decorator\<close>

lemma key_1_10: "getCacheKey 1 10 = ''page_1_10''"
  by (simp add: getCacheKey_def number_to_string_def nat_to_string.simps digit_char_def)

lemma key_2_10: "getCacheKey 2 10 = ''page_2_10''"
  by (simp add: getCacheKey_def number_to_string_def nat_to_string.simps digit_char_def)

lemma fetchUsers_hit:
  assumes "cache this (getCacheKey page pageSize) = Some stored"
  shows "CachingUserService_fetchUsers service this page pageSize =
     (Inr (Some \<lparr>results = stored,
                 info = \<lparr>info_page = page, info_results = pageSize,
                         info_seed = ''abc'', info_version = ''1.0''\<rparr>\<rparr>), this)"
  using assms by (simp add: CachingUserService_fetchUsers_def Let_def)

lemma fetchUsers_miss_success:
  assumes "cache this (getCacheKey page pageSize) = None"
    and "service (inner this) page pageSize = (Inr (Some r), w)"
  shows "CachingUserService_fetchUsers service this page pageSize =
     (Inr (Some r),
      this\<lparr>cache := (cache this)(getCacheKey page pageSize \<mapsto> results r),
           timers := timers this @ [(now this + timer_delay (cacheTTL this), getCacheKey page pageSize)],
           inner := w, calls := calls this @ [(page, pageSize)]\<rparr>)"
  using assms by (simp add: CachingUserService_fetchUsers_def setupCacheExpiration_def Let_def)

lemma fetchUsers_miss_failure:
  assumes "cache this (getCacheKey page pageSize) = None"
    and "service (inner this) page pageSize = (Inl e, w)"
  shows "CachingUserService_fetchUsers service this page pageSize =
     (Inl e, this\<lparr>inner := w, calls := calls this @ [(page, pageSize)]\<rparr>)"
  using assms by (simp add: CachingUserService_fetchUsers_def Let_def)

lemma fetchUsers_miss_undefined:
  assumes "cache this (getCacheKey page pageSize) = None"
    and "service (inner this) page pageSize = (Inr None, w)"
  shows "CachingUserService_fetchUsers service this page pageSize =
     (Inr None, this\<lparr>inner := w, calls := calls this @ [(page, pageSize)]\<rparr>)"
  using assms by (simp add: CachingUserService_fetchUsers_def Let_def)

lemma fetchUsers_miss_calls:
  assumes "cache this (getCacheKey page pageSize) = None"
  shows "calls (snd (CachingUserService_fetchUsers service this page pageSize)) =
           calls this @ [(page, pageSize)]"
    and "fst (CachingUserService_fetchUsers service this page pageSize) =
           fst (service (inner this) page pageSize)"
  using assms
  by (auto simp add: CachingUserService_fetchUsers_def setupCacheExpiration_def Let_def
      split: prod.splits sum.splits option.splits)

lemma fold_expire_cache:
  "cache (fold (\<lambda>timer. expire (snd timer)) ts s) k =
     (if k \<in> snd ` set ts then None else cache s k)"
  by (induction ts arbitrary: s) (auto simp: expire_def)

lemma fold_expire_rest:
  "timers (fold (\<lambda>timer. expire (snd timer)) ts s) = timers s"
  "now (fold (\<lambda>timer. expire (snd timer)) ts s) = now s"
  "cacheTTL (fold (\<lambda>timer. expire (snd timer)) ts s) = cacheTTL s"
  "inner (fold (\<lambda>timer. expire (snd timer)) ts s) = inner s"
  "calls (fold (\<lambda>timer. expire (snd timer)) ts s) = calls s"
  by (induction ts arbitrary: s) (auto simp: expire_def)

lemma advance_cache:
  "cache (advance d s) k =
     (if \<exists>at. (at, k) \<in> set (timers s) \<and> at \<le> now s + d then None else cache s k)"
  by (force simp: advance_def Let_def fold_expire_cache)

lemma advance_timers:
  "timers (advance d s) = filter (\<lambda>timer. \<not> fst timer \<le> now s + d) (timers s)"
  by (simp add: advance_def Let_def fold_expire_rest)

lemma advance_rest:
  "now (advance d s) = now s + d"
  "cacheTTL (advance d s) = cacheTTL s"
  "inner (advance d s) = inner s"
  "calls (advance d s) = calls s"
  by (simp_all add: advance_def Let_def fold_expire_rest)


lemma fresh_miss: "cache fresh (getCacheKey 1 10) = None"
  by (simp add: fresh_def new_CachingUserService_def)

lemma loaded_eq:
  "loaded = \<lparr>cache = [''page_1_10'' \<mapsto> [''u1'', ''u2'']], cacheTTL = 1000,
      timers = [(1000, ''page_1_10'')], now = 0, inner = (), calls = [(1, 10)]\<rparr>"
  unfolding loaded_def
  by (subst fetchUsers_miss_success [where service = upstream_service
        and r = upstream_page and w = "()", OF fresh_miss])
     (simp_all add: upstream_service_def fresh_def new_CachingUserService_def key_1_10
       upstream_page_def timer_delay_def)

lemma loaded_two_eq:
  "loaded_two = \<lparr>cache = [''page_1_10'' \<mapsto> [''u1'', ''u2''], ''page_2_10'' \<mapsto> [''u1'', ''u2'']],
      cacheTTL = 1000, timers = [(1000, ''page_1_10''), (1000, ''page_2_10'')], now = 0,
      inner = (), calls = [(1, 10), (2, 10)]\<rparr>"
proof -
  have miss: "cache loaded (getCacheKey 2 10) = None"
    by (simp add: loaded_eq key_2_10)
  show ?thesis
    unfolding loaded_two_def
    by (subst fetchUsers_miss_success [where service = upstream_service
          and r = upstream_page and w = "()", OF miss])
      (simp_all add: upstream_service_def loaded_eq key_2_10 upstream_page_def
        timer_delay_def)
qed

lemma url_1_10: "request_url 1 10 = ''https://randomuser.me/api/?page=1&results=10&seed=abc''"
  by (simp add: request_url_def number_to_string_def nat_to_string.simps digit_char_def)

lemma status_500: "number_to_string 500 = ''500''"
  by (simp add: number_to_string_def nat_to_string.simps digit_char_def)

lemma invalidatePage_fields:
  "cache (invalidatePage this page pageSize) = (cache this)(getCacheKey page pageSize := None)"
  "timers (invalidatePage this page pageSize) = timers this"
  "now (invalidatePage this page pageSize) = now this"
  "cacheTTL (invalidatePage this page pageSize) = cacheTTL this"
  "inner (invalidatePage this page pageSize) = inner this"
  "calls (invalidatePage this page pageSize) = calls this"
  by (simp_all add: invalidatePage_def Let_def)

lemma clearCache_fields:
  "cache (clearCache this) = Map.empty"
  "timers (clearCache this) = timers this"
  "now (clearCache this) = now this"
  "cacheTTL (clearCache this) = cacheTTL this"
  "inner (clearCache this) = inner this"
  "calls (clearCache this) = calls this"
  by (simp_all add: clearCache_def)



section \<open>Every entry has a timer\<close>

lemma timed_new: "timed (new_CachingUserService w ttl)"
  by (simp add: timed_def new_CachingUserService_def)

lemma fetchUsers_fields:
  "now (snd (CachingUserService_fetchUsers service this page pageSize)) = now this"
  "cacheTTL (snd (CachingUserService_fetchUsers service this page pageSize)) = cacheTTL this"
  by (auto simp: CachingUserService_fetchUsers_def setupCacheExpiration_def Let_def
      split: option.splits prod.splits sum.splits)

lemma timed_fetchUsers:
  assumes "timed this"
  shows "timed (snd (CachingUserService_fetchUsers service this page pageSize))"
proof (cases "cache this (getCacheKey page pageSize)")
  case (Some stored)
  with assms show ?thesis by (simp add: fetchUsers_hit)
next
  case None
  obtain answer w where a: "service (inner this) page pageSize = (answer, w)"
    by (cases "service (inner this) page pageSize")
  show ?thesis
  proof (cases answer)
    case (Inl e)
    with assms fetchUsers_miss_failure [where service = service, OF None] a
    show ?thesis by (simp add: timed_def)
  next
    case (Inr found)
    show ?thesis
    proof (cases found)
      case none: None
      with Inr assms fetchUsers_miss_undefined [where service = service, OF None] a
      show ?thesis by (simp add: timed_def)
    next
      case (Some r)
      with Inr a have "service (inner this) page pageSize = (Inr (Some r), w)" by simp
      from fetchUsers_miss_success [where service = service, OF None this] assms
      show ?thesis by (auto simp: timed_def)
    qed
  qed
qed

lemma timed_advance:
  assumes "timed this"
  shows "timed (advance d this)"
  unfolding timed_def
proof (intro allI impI)
  fix k
  assume live: "cache (advance d this) k \<noteq> None"
  then have none_due: "\<not> (\<exists>at. (at, k) \<in> set (timers this) \<and> at \<le> now this + d)"
    and "cache this k \<noteq> None"
    by (auto simp: advance_cache split: if_splits)
  with assms obtain at where at: "(at, k) \<in> set (timers this)" "at \<le> now this + timer_delay (cacheTTL this)"
    by (auto simp: timed_def)
  with none_due have "(at, k) \<in> set (timers (advance d this))"
    by (auto simp: advance_timers)
  moreover from at have "at \<le> now (advance d this) + timer_delay (cacheTTL (advance d this))"
    by (simp add: advance_rest)
  ultimately show "\<exists>at. (at, k) \<in> set (timers (advance d this))
      \<and> at \<le> now (advance d this) + timer_delay (cacheTTL (advance d this))"
    by blast
qed

lemma timed_perform: "timed this \<Longrightarrow> timed (perform service a this)"
  by (cases a)
    (auto simp: timed_fetchUsers timed_advance,
      auto simp: timed_def invalidatePage_fields clearCache_fields)

lemma timed_run: "timed this \<Longrightarrow> timed (run service actions this)"
  unfolding run_def
  by (induction actions arbitrary: this) (simp_all add: timed_perform)

lemma perform_cacheTTL: "cacheTTL (perform service a this) = cacheTTL this"
  by (cases a) (simp_all add: fetchUsers_fields invalidatePage_fields clearCache_fields advance_rest)

lemma run_cacheTTL: "cacheTTL (run service actions this) = cacheTTL this"
  unfolding run_def
  by (induction actions arbitrary: this) (simp_all add: perform_cacheTTL)

lemma timed_expires:
  assumes "timed this" and "timer_delay (cacheTTL this) \<le> d"
  shows "cache (advance d this) k = None"
proof (cases "cache this k")
  case None
  then show ?thesis by (simp add: advance_cache)
next
  case (Some stored)
  with assms(1) obtain at where "(at, k) \<in> set (timers this)" "at \<le> now this + timer_delay (cacheTTL this)"
    by (auto simp: timed_def)
  with assms(2) show ?thesis by (auto simp: advance_cache)
qed

lemma reachable_expires:
  assumes "timer_delay ttl \<le> d"
  shows "cache (advance d (run service actions (new_CachingUserService w ttl))) k = None"
proof -
  have "timed (run service actions (new_CachingUserService w ttl))"
    by (intro timed_run timed_new)
  moreover have "timer_delay (cacheTTL (run service actions (new_CachingUserService w ttl))) \<le> d"
    using assms by (simp add: run_cacheTTL new_CachingUserService_def)
  ultimately show ?thesis by (rule timed_expires)
qed

section \<open>The list component and the debounced handler\<close>

lemma in_flight_eq:
  "in_flight = \<lparr>users = [], currentPage = 1, loading = True, error = None, hasMore = True\<rparr>"
  by (simp add: in_flight_def loadUsers_start_def new_UserList_def)

lemma tidy_debounce: "tidy (debounce w)"
  by (simp add: tidy_def debounce_def)

lemma executedFunction_tidy:
  assumes "tidy s"
  shows "executedFunction args s =
     s\<lparr>scheduled := [(next_handle s, clock s + timer_delay (wait s), args)],
       next_handle := next_handle s + 1, timeout := Some (next_handle s)\<rparr>"
  using assms
  by (auto simp: tidy_def executedFunction_def clearTimeout_def setTimeout_def Let_def
      split: option.splits)

lemma elapse_idle:
  assumes "scheduled s = []"
  shows "elapse d s = s\<lparr>clock := clock s + d\<rparr>"
  using assms by (simp add: elapse_def Let_def)

lemma elapse_early:
  assumes "scheduled s = [(h, at, args)]" and "clock s + d < at"
  shows "elapse d s = s\<lparr>clock := clock s + d\<rparr>"
  using assms by (simp add: elapse_def Let_def)

lemma elapse_due:
  assumes "scheduled s = [(h, at, args)]" and "timeout s = Some h" and "at \<le> clock s + d"
  shows "elapse d s =
     s\<lparr>clock := clock s + d, scheduled := [], invoked := invoked s @ [(at, args)]\<rparr>"
  using assms
  by (simp add: elapse_def Let_def fire_def later_def clearTimeout_def)

lemma tidy_elapse: "tidy s \<Longrightarrow> tidy (elapse d s)"
proof -
  assume t: "tidy s"
  show ?thesis
  proof (cases "scheduled s")
    case Nil
    then show ?thesis by (simp add: elapse_idle tidy_def)
  next
    case (Cons x xs)
    with t obtain h at args where one: "scheduled s = [(h, at, args)]" "timeout s = Some h"
      by (auto simp: tidy_def)
    show ?thesis
    proof (cases "at \<le> clock s + d")
      case True
      from elapse_due [OF one True] show ?thesis by (simp add: tidy_def)
    next
      case False
      then have "clock s + d < at" by simp
      from elapse_early [OF one(1) this] one show ?thesis by (simp add: tidy_def)
    qed
  qed
qed

lemma tidy_step:
  assumes "tidy s"
  shows "tidy (step e s)"
proof (cases e)
  case (Call args)
  with executedFunction_tidy [OF assms, of args] show ?thesis
    by (simp add: tidy_def)
next
  case (Pause d)
  with assms show ?thesis by (simp add: tidy_elapse)
qed

lemma tidy_play: "tidy s \<Longrightarrow> tidy (play events s)"
  unfolding play_def by (induction events arbitrary: s) (simp_all add: tidy_step)

lemma wait_elapse: "tidy s \<Longrightarrow> wait (elapse d s) = wait s"
proof -
  assume t: "tidy s"
  show ?thesis
  proof (cases "scheduled s")
    case Nil
    then show ?thesis by (simp add: elapse_idle)
  next
    case (Cons x xs)
    with t obtain h at args where one: "scheduled s = [(h, at, args)]" "timeout s = Some h"
      by (auto simp: tidy_def)
    show ?thesis
    proof (cases "at \<le> clock s + d")
      case True
      from elapse_due [OF one True] show ?thesis by simp
    next
      case False
      then have "clock s + d < at" by simp
      from elapse_early [OF one(1) this] show ?thesis by simp
    qed
  qed
qed

lemma wait_step: "tidy s \<Longrightarrow> wait (step e s) = wait s"
  by (cases e) (simp_all add: wait_elapse executedFunction_tidy)

lemma wait_play: "tidy s \<Longrightarrow> wait (play events s) = wait s"
  unfolding play_def
  by (induction events arbitrary: s) (simp_all add: wait_step tidy_step)

lemma burst_pending:
  assumes "\<forall>(gap, args) \<in> set cs. gap < timer_delay (wait s)"
    and "scheduled s = [(h, clock s + timer_delay (wait s), a0)]"
    and "timeout s = Some h"
  shows "invoked (burst cs s) = invoked s
     \<and> (\<exists>h'. scheduled (burst cs s) =
           [(h', clock s + sum_list (map fst cs) + timer_delay (wait s), last (a0 # map snd cs))]
         \<and> timeout (burst cs s) = Some h')
     \<and> clock (burst cs s) = clock s + sum_list (map fst cs)
     \<and> wait (burst cs s) = wait s"
  using assms
proof (induction cs arbitrary: s h a0)
  case Nil
  then show ?case by simp
next
  case (Cons c cs)
  obtain gap args where c: "c = (gap, args)" by (cases c)
  let ?s1 = "executedFunction args (elapse gap s)"
  from Cons.prems c have gap: "gap < timer_delay (wait s)" by simp
  then have "clock s + gap < clock s + timer_delay (wait s)" by simp
  from elapse_early [OF Cons.prems(2) this]
  have el: "elapse gap s = s\<lparr>clock := clock s + gap\<rparr>" .
  with Cons.prems(2,3) have "tidy (elapse gap s)" by (simp add: tidy_def)
  from executedFunction_tidy [OF this] el
  have s1: "?s1 = s\<lparr>clock := clock s + gap,
      scheduled := [(next_handle s, clock s + gap + timer_delay (wait s), args)],
      next_handle := next_handle s + 1, timeout := Some (next_handle s)\<rparr>"
    by simp
  from Cons.prems(1) have "\<forall>(gap, args) \<in> set cs. gap < timer_delay (wait ?s1)"
    by (simp add: s1)
  moreover have "scheduled ?s1 = [(next_handle s, clock ?s1 + timer_delay (wait ?s1), args)]"
    by (simp add: s1)
  moreover have "timeout ?s1 = Some (next_handle s)"
    by (simp add: s1)
  ultimately have "invoked (burst cs ?s1) = invoked ?s1
     \<and> (\<exists>h'. scheduled (burst cs ?s1) =
           [(h', clock ?s1 + sum_list (map fst cs) + timer_delay (wait ?s1),
             last (args # map snd cs))]
         \<and> timeout (burst cs ?s1) = Some h')
     \<and> clock (burst cs ?s1) = clock ?s1 + sum_list (map fst cs)
     \<and> wait (burst cs ?s1) = wait ?s1"
    by (rule Cons.IH)
  then show ?case
    by (simp add: c s1 add.assoc)
qed

lemma scrolling_eq:
  "scrolling = \<lparr>wait = 200, timeout = Some 1, scheduled = [(1, 200, ''e0'')],
      next_handle = 2, clock = 50, invoked = []\<rparr>"
proof -
  have a: "executedFunction ''e0'' (handleScroll :: string debounced) =
      \<lparr>wait = 200, timeout = Some 1, scheduled = [(1, 200, ''e0'')],
       next_handle = 2, clock = 0, invoked = []\<rparr>"
    unfolding handleScroll_def
    by (subst executedFunction_tidy [OF tidy_debounce])
      (simp add: debounce_def timer_delay_def)
  have "elapse 50 \<lparr>wait = 200, timeout = Some 1, scheduled = [(1, 200, ''e0'')],
       next_handle = 2, clock = 0, invoked = []\<rparr> =
      \<lparr>wait = 200, timeout = Some 1, scheduled = [(1, 200, ''e0'')],
       next_handle = 2, clock = 50, invoked = []\<rparr>"
    by (subst elapse_early [where h = 1 and at = 200 and args = "''e0''"]) simp_all
  with a show ?thesis by (simp add: scrolling_def play_def)
qed

section \<open>The claims\<close>

text \<open>
  C5. The cache key is a deterministic and injective function of the pagination
  parameters: equal pairs give equal keys, the key of page 1 with size 10 differs from
  the key of page 2 with size 10, and two keys are equal only if both the pages and the
  page sizes are.
\<close>

theorem getCacheKey_injective:
  "getCacheKey 1 10 = getCacheKey 1 10 \<and> getCacheKey 1 10 \<noteq> getCacheKey 2 10
   \<and> (getCacheKey p r = getCacheKey p' r' \<longleftrightarrow> p = p' \<and> r = r')"
  by (simp add: getCacheKey_eq_iff)

text \<open>
  C1. The code at the input where it breaks the claim.  The upstream service answers
  page 1 with the version \<open>1.4\<close> in its metadata and the first call returns that
  answer.  The second call finds the live entry, leaves the state as it is, so the
  wrapped service is not invoked, and returns the stored users under the version
  \<open>1.0\<close>, a literal of the hit path: its result is not the first call's result.
\<close>

theorem cache_hit_differs_from_first:
  "fst (CachingUserService_fetchUsers upstream_service fresh 1 10) = Inr (Some upstream_page)
   \<and> snd (CachingUserService_fetchUsers upstream_service fresh 1 10) = loaded
   \<and> cache loaded (getCacheKey 1 10) = Some (results upstream_page)
   \<and> CachingUserService_fetchUsers upstream_service loaded 1 10 =
       (Inr (Some \<lparr>results = results upstream_page,
                   info = \<lparr>info_page = 1, info_results = 10,
                           info_seed = ''abc'', info_version = ''1.0''\<rparr>\<rparr>), loaded)
   \<and> info_version (info upstream_page) = ''1.4''
   \<and> fst (CachingUserService_fetchUsers upstream_service loaded 1 10) \<noteq>
       fst (CachingUserService_fetchUsers upstream_service fresh 1 10)"
proof -
  have live: "cache loaded (getCacheKey 1 10) = Some (results upstream_page)"
    by (simp add: loaded_eq key_1_10 upstream_page_def)
  have first: "fst (CachingUserService_fetchUsers upstream_service fresh 1 10) =
      Inr (Some upstream_page)"
    by (subst fetchUsers_miss_success [where service = upstream_service
        and r = upstream_page and w = "()", OF fresh_miss])
      (simp_all add: upstream_service_def)
  have second: "CachingUserService_fetchUsers upstream_service loaded 1 10 =
       (Inr (Some \<lparr>results = results upstream_page,
                   info = \<lparr>info_page = 1, info_results = 10,
                           info_seed = ''abc'', info_version = ''1.0''\<rparr>\<rparr>), loaded)"
    by (rule fetchUsers_hit [OF live])
  have differ: "fst (CachingUserService_fetchUsers upstream_service loaded 1 10) \<noteq>
       fst (CachingUserService_fetchUsers upstream_service fresh 1 10)"
    by (simp add: first second) (simp add: upstream_page_def)
  from live first second differ show ?thesis
    by (simp add: loaded_def) (simp add: upstream_page_def)
qed

text \<open>
  C2. If the key has no entry and the wrapped service fails, \<open>fetchUsers\<close> fails with
  the same value; the cache map and the pending timers are as before, so no entry is
  created or modified; and the next call for the same key, at once or after any time
  has passed, invokes the wrapped service again and returns what it answers.
\<close>

theorem failure_not_cached:
  assumes "cache this (getCacheKey page pageSize) = None"
    and "service (inner this) page pageSize = (Inl e, w)"
    and "CachingUserService_fetchUsers service this page pageSize = (answer, this1)"
  shows "answer = Inl e \<and> cache this1 = cache this \<and> timers this1 = timers this
     \<and> calls this1 = calls this @ [(page, pageSize)]
     \<and> calls (snd (CachingUserService_fetchUsers service2 this1 page pageSize)) =
         calls this1 @ [(page, pageSize)]
     \<and> fst (CachingUserService_fetchUsers service2 this1 page pageSize) =
         fst (service2 (inner this1) page pageSize)
     \<and> calls (snd (CachingUserService_fetchUsers service2 (advance d this1)
           page pageSize)) = calls this1 @ [(page, pageSize)]
     \<and> fst (CachingUserService_fetchUsers service2 (advance d this1) page pageSize) =
         fst (service2 (inner this1) page pageSize)"
proof -
  from fetchUsers_miss_failure [where service = service, OF assms(1,2)] assms(3)
  have this1: "this1 = this\<lparr>inner := w, calls := calls this @ [(page, pageSize)]\<rparr>"
    and answer: "answer = Inl e"
    by simp_all
  from this1 assms(1) have miss: "cache this1 (getCacheKey page pageSize) = None"
    by simp
  then have later_miss: "cache (advance d this1) (getCacheKey page pageSize) = None"
    by (simp add: advance_cache)
  from answer this1 fetchUsers_miss_calls [OF miss, of service2]
    fetchUsers_miss_calls [OF later_miss, of service2]
  show ?thesis
    by (simp add: advance_rest)
qed

text \<open>
  The failing service on the empty decorator, then the upstream service.
\<close>

theorem failure_not_cached_witness:
  "cache fresh (getCacheKey 1 10) = None
   \<and> failing_service (inner fresh) 1 10 = (Inl (Error_obj ''HTTP error! status: 500''), ())
   \<and> CachingUserService_fetchUsers failing_service fresh 1 10 =
       (Inl (Error_obj ''HTTP error! status: 500''), fresh\<lparr>calls := [(1, 10)]\<rparr>)
   \<and> cache (fresh\<lparr>calls := [(1, 10)]\<rparr>) = cache fresh
   \<and> calls (snd (CachingUserService_fetchUsers upstream_service
         (fresh\<lparr>calls := [(1, 10)]\<rparr>) 1 10)) = [(1, 10), (1, 10)]
   \<and> fst (CachingUserService_fetchUsers upstream_service
         (fresh\<lparr>calls := [(1, 10)]\<rparr>) 1 10) = Inr (Some upstream_page)"
proof -
  have a: "cache fresh (getCacheKey 1 10) = None" by (rule fresh_miss)
  have b: "failing_service (inner fresh) 1 10 = (Inl (Error_obj ''HTTP error! status: 500''), ())"
    by (simp add: failing_service_def)
  have c: "CachingUserService_fetchUsers failing_service fresh 1 10 =
       (Inl (Error_obj ''HTTP error! status: 500''), fresh\<lparr>calls := [(1, 10)]\<rparr>)"
    by (subst fetchUsers_miss_failure [where service = failing_service, OF a b])
      (simp add: fresh_def new_CachingUserService_def)
  from failure_not_cached [where service = failing_service and ?service2.0 = upstream_service,
      OF a b c] a b c
  show ?thesis by (simp add: upstream_service_def)
qed

text \<open>
  C6. \<open>invalidatePage\<close> deletes the entry of its own key and nothing else: every
  other key, and so the key of every other (page, pageSize) pair, keeps its entry, the
  timers, the clock and the wrapped service are untouched, and a call of
  \<open>fetchUsers\<close> for another pair that was cached is still a hit.  When the key has no
  entry the state is unchanged.
\<close>

theorem invalidatePage_key_scoped:
  "cache (invalidatePage this page pageSize) (getCacheKey page pageSize) = None
   \<and> timers (invalidatePage this page pageSize) = timers this
   \<and> calls (invalidatePage this page pageSize) = calls this
   \<and> inner (invalidatePage this page pageSize) = inner this
   \<and> now (invalidatePage this page pageSize) = now this
   \<and> (k \<noteq> getCacheKey page pageSize \<longrightarrow>
        cache (invalidatePage this page pageSize) k = cache this k)
   \<and> ((page2, pageSize2) \<noteq> (page, pageSize) \<longrightarrow>
        cache (invalidatePage this page pageSize) (getCacheKey page2 pageSize2) =
          cache this (getCacheKey page2 pageSize2))
   \<and> ((page2, pageSize2) \<noteq> (page, pageSize)
        \<and> cache this (getCacheKey page2 pageSize2) = Some stored \<longrightarrow>
        CachingUserService_fetchUsers service (invalidatePage this page pageSize)
            page2 pageSize2 =
          (Inr (Some \<lparr>results = stored,
                      info = \<lparr>info_page = page2, info_results = pageSize2,
                              info_seed = ''abc'', info_version = ''1.0''\<rparr>\<rparr>),
           invalidatePage this page pageSize))
   \<and> (cache this (getCacheKey page pageSize) = None \<longrightarrow>
        invalidatePage this page pageSize = this)"
proof -
  have other: "cache (invalidatePage this page pageSize) (getCacheKey page2 pageSize2) =
      cache this (getCacheKey page2 pageSize2)"
    if "(page2, pageSize2) \<noteq> (page, pageSize)"
    using that by (auto simp: invalidatePage_def Let_def getCacheKey_eq_iff)
  have hit: "CachingUserService_fetchUsers service (invalidatePage this page pageSize)
            page2 pageSize2 =
          (Inr (Some \<lparr>results = stored,
                      info = \<lparr>info_page = page2, info_results = pageSize2,
                              info_seed = ''abc'', info_version = ''1.0''\<rparr>\<rparr>),
           invalidatePage this page pageSize)"
    if "(page2, pageSize2) \<noteq> (page, pageSize)"
      and "cache this (getCacheKey page2 pageSize2) = Some stored"
    using that other by (intro fetchUsers_hit) simp
  have noop: "invalidatePage this page pageSize = this"
    if "cache this (getCacheKey page pageSize) = None"
  proof -
    from that have "(cache this)(getCacheKey page pageSize := None) = cache this"
      by (simp add: fun_upd_idem)
    then show ?thesis by (simp add: invalidatePage_def Let_def)
  qed
  show ?thesis
    using other hit noop by (simp add: invalidatePage_def Let_def)
qed

text \<open>
  Pages 1 and 2 are cached, page 1 is invalidated; and an invalidation on the empty
  decorator.
\<close>

theorem invalidatePage_key_scoped_witness:
  "(2 :: int, 10 :: int) \<noteq> (1, 10)
   \<and> ''page_2_10'' \<noteq> getCacheKey 1 10
   \<and> cache loaded_two (getCacheKey 2 10) = Some [''u1'', ''u2'']
   \<and> cache loaded_two (getCacheKey 1 10) = Some [''u1'', ''u2'']
   \<and> cache (invalidatePage loaded_two 1 10) (getCacheKey 1 10) = None
   \<and> cache (invalidatePage loaded_two 1 10) ''page_2_10'' = Some [''u1'', ''u2'']
   \<and> CachingUserService_fetchUsers failing_service (invalidatePage loaded_two 1 10) 2 10 =
        (Inr (Some \<lparr>results = [''u1'', ''u2''],
                    info = \<lparr>info_page = 2, info_results = 10,
                            info_seed = ''abc'', info_version = ''1.0''\<rparr>\<rparr>),
         invalidatePage loaded_two 1 10)
   \<and> cache fresh (getCacheKey 1 10) = None
   \<and> invalidatePage fresh 1 10 = fresh"
proof -
  have a: "(2 :: int, 10 :: int) \<noteq> (1, 10)" by simp
  have b: "''page_2_10'' \<noteq> getCacheKey 1 10" by (simp add: key_1_10)
  have c: "cache loaded_two (getCacheKey 2 10) = Some [''u1'', ''u2'']"
    by (simp add: loaded_two_eq key_2_10)
  have d: "cache loaded_two (getCacheKey 1 10) = Some [''u1'', ''u2'']"
    by (simp add: loaded_two_eq key_1_10)
  have e: "cache loaded_two ''page_2_10'' = Some [''u1'', ''u2'']"
    by (simp add: loaded_two_eq)
  from a b c d e fresh_miss
    invalidatePage_key_scoped [of loaded_two 1 10 "''page_2_10''" 2 10 "[''u1'', ''u2'']"
      failing_service]
    invalidatePage_key_scoped [of fresh 1 10]
  show ?thesis by simp
qed

text \<open>
  C7. When \<open>fetch\<close> resolves to a response whose status is not a success status,
  \<open>UserService.fetchUsers\<close> fails with an \<open>Error\<close> whose message is
  \<open>HTTP error! status: \<close> followed by the status, from which the status can be read
  back; exactly one request has been made, so nothing was retried.
\<close>

theorem http_error_no_retry:
  assumes "respond net (length (requests net)) (request_url page pageSize) = Inr response"
    and "\<not> ok response"
  shows "UserService_fetchUsers net page pageSize =
      (Inl (Error_obj (''HTTP error! status: '' @ number_to_string (status response))),
       net\<lparr>requests := requests net @ [request_url page pageSize]\<rparr>)
     \<and> (''HTTP error! status: '' @ number_to_string (status response) =
          ''HTTP error! status: '' @ number_to_string n \<longleftrightarrow> status response = n)"
  using assms number_to_string_inject [of "status response" n]
  by (auto simp: UserService_fetchUsers_def fetchUsers_try_def fetch_def)

text \<open>
  A network that answers 500 first and 200 afterwards: the call fails after one
  request.
\<close>

theorem http_error_no_retry_witness:
  "respond flaky_network (length (requests flaky_network)) (request_url 1 10) =
      Inr \<lparr>status = 500, json = Inl (Error_obj ''Unexpected end of JSON input'')\<rparr>
   \<and> \<not> ok \<lparr>status = 500, json = Inl (Error_obj ''Unexpected end of JSON input'') :: thrown + string ApiResponse\<rparr>
   \<and> UserService_fetchUsers flaky_network 1 10 =
      (Inl (Error_obj ''HTTP error! status: 500''),
       flaky_network\<lparr>requests := [''https://randomuser.me/api/?page=1&results=10&seed=abc'']\<rparr>)"
proof -
  have a: "respond flaky_network (length (requests flaky_network)) (request_url 1 10) =
      Inr \<lparr>status = 500, json = Inl (Error_obj ''Unexpected end of JSON input'')\<rparr>"
    by (simp add: flaky_network_def)
  have b: "\<not> ok \<lparr>status = 500, json = Inl (Error_obj ''Unexpected end of JSON input'') :: thrown + string ApiResponse\<rparr>"
    by (simp add: ok_def)
  have c: "requests flaky_network = []" by (simp add: flaky_network_def)
  from a b http_error_no_retry [OF a b] show ?thesis
    by (simp add: url_1_10 status_500 c)
qed

text \<open>
  C9. If the \<open>try\<close> block of \<open>UserService.fetchUsers\<close> throws a value that is not
  an instance of \<open>Error\<close>, the call resolves to \<open>undefined\<close>; the caching
  decorator around it, on a miss, resolves to \<open>undefined\<close> too and leaves the cache
  map and the timers as they were.
\<close>

theorem non_error_resolves_undefined:
  assumes "fetchUsers_try net page pageSize = (Inl (Other_value v), net')"
  shows "UserService_fetchUsers net page pageSize = (Inr None, net')
     \<and> (cache this (getCacheKey page pageSize) = None \<and> inner this = net \<longrightarrow>
          CachingUserService_fetchUsers UserService_fetchUsers this page pageSize =
            (Inr None, this\<lparr>inner := net', calls := calls this @ [(page, pageSize)]\<rparr>)
          \<and> cache (snd (CachingUserService_fetchUsers UserService_fetchUsers this
                page pageSize)) = cache this
          \<and> timers (snd (CachingUserService_fetchUsers UserService_fetchUsers this
                page pageSize)) = timers this)"
proof -
  from assms have u: "UserService_fetchUsers net page pageSize = (Inr None, net')"
    by (simp add: UserService_fetchUsers_def)
  have "CachingUserService_fetchUsers UserService_fetchUsers this page pageSize =
            (Inr None, this\<lparr>inner := net', calls := calls this @ [(page, pageSize)]\<rparr>)"
    if "cache this (getCacheKey page pageSize) = None" and "inner this = net"
    using that u
    by (intro fetchUsers_miss_undefined) simp_all
  with u show ?thesis by simp
qed

text \<open>
  \<open>fetch\<close> rejects with a string.
\<close>

theorem non_error_resolves_undefined_witness:
  "fetchUsers_try offline_network 1 10 =
     (Inl (Other_value ''offline''),
      offline_network\<lparr>requests := [''https://randomuser.me/api/?page=1&results=10&seed=abc'']\<rparr>)
   \<and> cache offline_decorator (getCacheKey 1 10) = None
   \<and> inner offline_decorator = offline_network
   \<and> fst (UserService_fetchUsers offline_network 1 10) = Inr None
   \<and> fst (CachingUserService_fetchUsers UserService_fetchUsers offline_decorator 1 10) = Inr None
   \<and> cache (snd (CachingUserService_fetchUsers UserService_fetchUsers offline_decorator 1 10)) (getCacheKey 1 10) = None"
proof -
  have a: "fetchUsers_try offline_network 1 10 =
     (Inl (Other_value ''offline''),
      offline_network\<lparr>requests := [''https://randomuser.me/api/?page=1&results=10&seed=abc'']\<rparr>)"
    by (simp add: fetchUsers_try_def fetch_def offline_network_def url_1_10)
  have b: "cache offline_decorator (getCacheKey 1 10) = None"
    by (simp add: offline_decorator_def new_CachingUserService_def)
  have c: "inner offline_decorator = offline_network"
    by (simp add: offline_decorator_def new_CachingUserService_def)
  from a b c non_error_resolves_undefined [OF a, of offline_decorator] show ?thesis
    by simp
qed

text \<open>
  C3, for a TTL that the platform's timers take as it is given, from 1 to
  2147483647 ms.  After a call that missed and succeeded, the entry is stored
  and its timer is pending, due one TTL after the call.  The timer stays pending
  while less than the TTL has passed.  Once the TTL has passed the timer has fired:
  the entry is gone from the map without any call having looked at it, and a repeated
  \<open>fetchUsers\<close> for the key invokes the wrapped service again and returns what it
  answers.  The callback deletes its own key and no other, and the passing of time
  leaves every key that has no timer due as it was.  After any history of a
  decorator with such a TTL, once a TTL has passed no entry of that moment is left, and
  \<open>fetchUsers\<close> invokes the wrapped service.
\<close>

theorem expiry_refetch:
  assumes "1 \<le> cacheTTL this" and "cacheTTL this \<le> 2147483647"
    and "cache this (getCacheKey page pageSize) = None"
    and "service (inner this) page pageSize = (Inr (Some r), w)"
    and "CachingUserService_fetchUsers service this page pageSize = (answer, this1)"
  shows "cache this1 (getCacheKey page pageSize) = Some (results r)
     \<and> (now this + nat (cacheTTL this), getCacheKey page pageSize) \<in> set (timers this1)
     \<and> (d < nat (cacheTTL this) \<longrightarrow>
          (now this + nat (cacheTTL this), getCacheKey page pageSize)
            \<in> set (timers (advance d this1)))
     \<and> (nat (cacheTTL this) \<le> d \<longrightarrow>
          cache (advance d this1) (getCacheKey page pageSize) = None
          \<and> (now this + nat (cacheTTL this), getCacheKey page pageSize)
               \<notin> set (timers (advance d this1))
          \<and> calls (snd (CachingUserService_fetchUsers service2 (advance d this1)
               page pageSize)) = calls this1 @ [(page, pageSize)]
          \<and> fst (CachingUserService_fetchUsers service2 (advance d this1) page pageSize) =
               fst (service2 (inner this1) page pageSize))
     \<and> cache (expire (getCacheKey page pageSize) s) (getCacheKey page pageSize) = None
     \<and> (k \<noteq> getCacheKey page pageSize \<longrightarrow>
          cache (expire (getCacheKey page pageSize) s) k = cache s k)
     \<and> ((\<forall>at. (at, k) \<in> set (timers this1) \<longrightarrow> now this1 + d < at) \<longrightarrow>
          cache (advance d this1) k = cache this1 k)
     \<and> (1 \<le> ttl \<and> ttl \<le> 2147483647 \<and> nat ttl \<le> d \<longrightarrow>
          cache (advance d (run service2 actions (new_CachingUserService w0 ttl))) k = None
          \<and> calls (snd (CachingUserService_fetchUsers service2
               (advance d (run service2 actions (new_CachingUserService w0 ttl)))
               page pageSize)) =
             calls (run service2 actions (new_CachingUserService w0 ttl)) @ [(page, pageSize)])"
proof -
  let ?key = "getCacheKey page pageSize"
  from assms(1,2) have delay: "timer_delay (cacheTTL this) = nat (cacheTTL this)"
    by (simp add: timer_delay_def)
  from fetchUsers_miss_success [where service = service, OF assms(3,4)] assms(5)
  have this1: "this1 = this\<lparr>cache := (cache this)(?key \<mapsto> results r),
           timers := timers this @ [(now this + nat (cacheTTL this), ?key)],
           inner := w, calls := calls this @ [(page, pageSize)]\<rparr>"
    by (simp add: delay)
  have stored: "cache this1 ?key = Some (results r)"
    and timer: "(now this + nat (cacheTTL this), ?key) \<in> set (timers this1)"
    and now1: "now this1 = now this"
    by (simp_all add: this1)
  have before: "(now this + nat (cacheTTL this), ?key) \<in> set (timers (advance d this1))"
    if "d < nat (cacheTTL this)"
    using that timer by (simp add: advance_timers now1)
  have after: "cache (advance d this1) ?key = None
      \<and> (now this + nat (cacheTTL this), ?key) \<notin> set (timers (advance d this1))
      \<and> calls (snd (CachingUserService_fetchUsers service2 (advance d this1)
               page pageSize)) = calls this1 @ [(page, pageSize)]
      \<and> fst (CachingUserService_fetchUsers service2 (advance d this1) page pageSize) =
               fst (service2 (inner this1) page pageSize)"
    if "nat (cacheTTL this) \<le> d"
  proof -
    from that timer have gone: "cache (advance d this1) ?key = None"
      by (auto simp: advance_cache now1)
    from that have "(now this + nat (cacheTTL this), ?key) \<notin> set (timers (advance d this1))"
      by (simp add: advance_timers now1)
    with gone fetchUsers_miss_calls [OF gone, of service2] show ?thesis
      by (simp add: advance_rest)
  qed
  have untouched: "cache (advance d this1) k = cache this1 k"
    if "\<forall>at. (at, k) \<in> set (timers this1) \<longrightarrow> now this1 + d < at"
    using that by (auto simp: advance_cache)
  have anywhere: "cache (advance d (run service2 actions (new_CachingUserService w0 ttl))) k = None
      \<and> calls (snd (CachingUserService_fetchUsers service2
               (advance d (run service2 actions (new_CachingUserService w0 ttl)))
               page pageSize)) =
             calls (run service2 actions (new_CachingUserService w0 ttl)) @ [(page, pageSize)]"
    if "1 \<le> ttl \<and> ttl \<le> 2147483647 \<and> nat ttl \<le> d"
  proof -
    from that have "timer_delay ttl \<le> d" by (simp add: timer_delay_def)
    from fetchUsers_miss_calls(1) [OF reachable_expires [OF this], of service2]
      reachable_expires [OF this]
    show ?thesis by (simp add: advance_rest)
  qed
  from stored timer before after untouched anywhere show ?thesis
    by (simp add: expire_def)
qed

text \<open>
  The example decorator 999 ms and 1000 ms after its first call, the callback of
  page 1 when page 2 is cached too, and a history of three steps.
\<close>

theorem expiry_refetch_witness:
  "1 \<le> cacheTTL fresh \<and> cacheTTL fresh \<le> 2147483647
   \<and> cache fresh (getCacheKey 1 10) = None
   \<and> upstream_service (inner fresh) 1 10 = (Inr (Some upstream_page), ())
   \<and> CachingUserService_fetchUsers upstream_service fresh 1 10 = (Inr (Some upstream_page), loaded)
   \<and> 999 < nat (cacheTTL fresh) \<and> nat (cacheTTL fresh) \<le> 1000
   \<and> timers loaded = [(1000, ''page_1_10'')] \<and> now loaded + 999 < 1000
   \<and> cache (advance 999 loaded) ''page_1_10'' = cache loaded ''page_1_10''
   \<and> cache (advance 1000 loaded) (getCacheKey 1 10) = None
   \<and> calls (snd (CachingUserService_fetchUsers upstream_service (advance 1000 loaded) 1 10)) =
        calls loaded @ [(1, 10)]
   \<and> ''page_2_10'' \<noteq> getCacheKey 1 10
   \<and> cache (expire (getCacheKey 1 10) loaded_two) ''page_2_10'' = Some [''u1'', ''u2'']
   \<and> cache (advance 1000 (run upstream_service [FetchUsers 2 10, Advance 400, FetchUsers 1 10]
        fresh)) ''page_1_10'' = None"
proof -
  have r: "1 \<le> cacheTTL fresh" "cacheTTL fresh \<le> 2147483647"
    by (simp_all add: fresh_def new_CachingUserService_def)
  have a: "cache fresh (getCacheKey 1 10) = None" by (rule fresh_miss)
  have b: "upstream_service (inner fresh) 1 10 = (Inr (Some upstream_page), ())"
    by (simp add: upstream_service_def)
  have c: "CachingUserService_fetchUsers upstream_service fresh 1 10 =
      (Inr (Some upstream_page), loaded)"
    unfolding loaded_def
    by (subst (1 2) fetchUsers_miss_success [where service = upstream_service, OF a b]) simp
  have d: "999 < nat (cacheTTL fresh) \<and> nat (cacheTTL fresh) \<le> 1000"
    by (simp add: fresh_def new_CachingUserService_def)
  have e: "\<forall>at. (at, ''page_1_10'') \<in> set (timers loaded) \<longrightarrow> now loaded + 999 < at"
    by (simp add: loaded_eq)
  have f: "timers loaded = [(1000, ''page_1_10'')] \<and> now loaded + 999 < 1000"
    by (simp add: loaded_eq)
  have g: "''page_2_10'' \<noteq> getCacheKey 1 10" by (simp add: key_1_10)
  have h: "cache loaded_two ''page_2_10'' = Some [''u1'', ''u2'']"
    by (simp add: loaded_two_eq)
  from r a b c d e f g h
    expiry_refetch [where service = upstream_service and ?service2.0 = upstream_service
      and d = 999 and k = "''page_1_10''" and s = loaded and ttl = 1000
      and actions = "[]" and ?w0.0 = "()", OF r a b c]
    expiry_refetch [where service = upstream_service and ?service2.0 = upstream_service
      and d = 1000 and k = "''page_2_10''" and s = loaded_two and ttl = 1000
      and actions = "[]" and ?w0.0 = "()", OF r a b c]
    expiry_refetch [where service = upstream_service and ?service2.0 = upstream_service
      and d = 1000 and k = "''page_1_10''" and s = loaded and ttl = 1000
      and actions = "[FetchUsers 2 10, Advance 400, FetchUsers 1 10]" and ?w0.0 = "()",
      OF r a b c]
  show ?thesis by (simp add: fresh_def)
qed




text \<open>
  C8, for a \<open>wait\<close> that the platform's timers take as it is given, from 1 to
  2147483647 ms, and after any history of calls and pauses.  A call of the
  debounced function clears the timer that was pending, so that the one it sets, due
  \<open>wait\<close> after the call, is the only one scheduled; the call invokes nothing.  In a
  burst of calls that each come less than \<open>wait\<close> after the one before, nothing is
  invoked; after a pause shorter than \<open>wait\<close> still nothing; after a pause of
  \<open>wait\<close> or more the wrapped function has been invoked exactly once, \<open>wait\<close>
  after the last call of the burst and with that call's arguments, and no timer is
  scheduled.
\<close>

theorem debounce_trailing_edge:
  assumes "1 \<le> w" and "w \<le> 2147483647"
    and "s = play events (debounce w)"
  shows "scheduled (executedFunction a0 s) = [(next_handle s, clock s + nat w, a0)]
   \<and> timeout (executedFunction a0 s) = Some (next_handle s)
   \<and> invoked (executedFunction a0 s) = invoked s
   \<and> ((\<forall>(gap, args) \<in> set cs. gap < nat w) \<longrightarrow>
        invoked (burst cs (executedFunction a0 s)) = invoked s
        \<and> (d < nat w \<longrightarrow>
             invoked (elapse d (burst cs (executedFunction a0 s))) = invoked s)
        \<and> (nat w \<le> d \<longrightarrow>
             invoked (elapse d (burst cs (executedFunction a0 s))) =
               invoked s @ [(clock s + sum_list (map fst cs) + nat w, last (a0 # map snd cs))]
             \<and> scheduled (elapse d (burst cs (executedFunction a0 s))) = []))"
proof -
  let ?s0 = "executedFunction a0 s"
  have tidy: "tidy s"
    unfolding assms(3) by (rule tidy_play [OF tidy_debounce])
  have "wait s = wait (debounce w :: 'a debounced)"
    unfolding assms(3) by (rule wait_play [OF tidy_debounce])
  then have "wait s = w" by (simp add: debounce_def)
  with assms(1,2) have delay: "timer_delay (wait s) = nat w"
    by (simp add: timer_delay_def)
  from executedFunction_tidy [OF tidy, of a0] delay
  have s0: "?s0 = s\<lparr>scheduled := [(next_handle s, clock s + nat w, a0)],
       next_handle := next_handle s + 1, timeout := Some (next_handle s)\<rparr>"
    by simp
  have rest: "invoked (burst cs ?s0) = invoked s
        \<and> (d < nat w \<longrightarrow> invoked (elapse d (burst cs ?s0)) = invoked s)
        \<and> (nat w \<le> d \<longrightarrow>
             invoked (elapse d (burst cs ?s0)) =
               invoked s @ [(clock s + sum_list (map fst cs) + nat w, last (a0 # map snd cs))]
             \<and> scheduled (elapse d (burst cs ?s0)) = [])"
    if quiet: "\<forall>(gap, args) \<in> set cs. gap < nat w"
  proof -
    from quiet delay have "\<forall>(gap, args) \<in> set cs. gap < timer_delay (wait ?s0)"
      by (simp add: s0)
    moreover have "scheduled ?s0 = [(next_handle s, clock ?s0 + timer_delay (wait ?s0), a0)]"
      using delay by (simp add: s0)
    moreover have "timeout ?s0 = Some (next_handle s)" by (simp add: s0)
    ultimately have "invoked (burst cs ?s0) = invoked ?s0
       \<and> (\<exists>h'. scheduled (burst cs ?s0) =
             [(h', clock ?s0 + sum_list (map fst cs) + timer_delay (wait ?s0),
               last (a0 # map snd cs))]
           \<and> timeout (burst cs ?s0) = Some h')
       \<and> clock (burst cs ?s0) = clock ?s0 + sum_list (map fst cs)
       \<and> wait (burst cs ?s0) = wait ?s0"
      by (rule burst_pending)
    then obtain h' where b: "invoked (burst cs ?s0) = invoked s"
      "scheduled (burst cs ?s0) =
         [(h', clock s + sum_list (map fst cs) + nat w, last (a0 # map snd cs))]"
      "timeout (burst cs ?s0) = Some h'"
      "clock (burst cs ?s0) = clock s + sum_list (map fst cs)"
      using delay by (auto simp: s0)
    have early: "invoked (elapse d (burst cs ?s0)) = invoked s" if "d < nat w"
    proof -
      from that b(4) have "clock (burst cs ?s0) + d < clock s + sum_list (map fst cs) + nat w"
        by simp
      from elapse_early [OF b(2) this] b(1) show ?thesis by simp
    qed
    have late: "invoked (elapse d (burst cs ?s0)) =
               invoked s @ [(clock s + sum_list (map fst cs) + nat w, last (a0 # map snd cs))]
             \<and> scheduled (elapse d (burst cs ?s0)) = []" if "nat w \<le> d"
    proof -
      from that b(4) have "clock s + sum_list (map fst cs) + nat w \<le> clock (burst cs ?s0) + d"
        by simp
      from elapse_due [OF b(2,3) this] b(1) show ?thesis by simp
    qed
    from b(1) early late show ?thesis by blast
  qed
  with s0 show ?thesis by simp
qed

text \<open>
  The handler of the component, whose \<open>wait\<close> is 200 ms: a scroll event at 0 ms
  whose timer is pending, then three more at 50, 100 and 299 ms.
\<close>

theorem debounce_trailing_edge_witness:
  "1 \<le> (200 :: int) \<and> (200 :: int) \<le> 2147483647
   \<and> scrolling = play [Call ''e0'', Pause 50] (debounce 200)
   \<and> scheduled scrolling = [(1, 200, ''e0'')]
   \<and> 50 < nat 200 \<and> 199 < nat 200 \<and> nat 200 \<le> (200 :: nat)
   \<and> scheduled (executedFunction ''e1'' scrolling) = [(2, 250, ''e1'')]
   \<and> invoked (elapse 199 (burst [(50, ''e2''), (199, ''e3'')]
         (executedFunction ''e1'' scrolling))) = []
   \<and> invoked (elapse 200 (burst [(50, ''e2''), (199, ''e3'')]
         (executedFunction ''e1'' scrolling))) = [(499, ''e3'')]"
proof -
  have r: "1 \<le> (200 :: int)" "(200 :: int) \<le> 2147483647" by simp_all
  have s: "scrolling = play [Call ''e0'', Pause 50] (debounce 200)"
    by (simp add: scrolling_def handleScroll_def)
  have a: "\<forall>(gap, args) \<in> set [(50, ''e2''), (199, ''e3'')]. gap < nat 200"
    by simp
  have c: "clock scrolling = 50" "invoked scrolling = []" "next_handle scrolling = 2"
    "scheduled scrolling = [(1, 200, ''e0'')]"
    by (simp_all add: scrolling_eq)
  from r s a
    debounce_trailing_edge [where s = scrolling and w = 200
      and events = "[Call ''e0'', Pause 50]" and ?a0.0 = "''e1''"
      and cs = "[(50, ''e2''), (199, ''e3'')]" and d = 199, OF r s]
    debounce_trailing_edge [where s = scrolling and w = 200
      and events = "[Call ''e0'', Pause 50]" and ?a0.0 = "''e1''"
      and cs = "[(50, ''e2''), (199, ''e3'')]" and d = 200, OF r s]
  show ?thesis by (simp add: c)
qed

text \<open>
  C10. \<open>loadUsers\<close> makes no request and changes nothing while \<open>loading\<close> is true
  or \<open>hasMore\<close> is false.  When the service call fails, \<open>hasMore\<close> becomes false,
  so the next \<open>loadUsers\<close> is such a no-op; \<open>retryLoading\<close> sets \<open>hasMore\<close> and,
  unless a load is in flight, requests the current page again.  \<open>currentPage\<close>
  changes only when the service answers with a response that has users, and then by
  one.  An answer of \<open>undefined\<close> only ends the load.
\<close>

theorem loadUsers_guarded:
  "(loading st \<or> \<not> hasMore st \<longrightarrow>
      loadUsers_start st = (st, None) \<and> loadUsers st answer = st)
   \<and> \<not> hasMore (loadUsers_resume st (Inl e))
   \<and> loadUsers_start (loadUsers_resume st (Inl e)) = (loadUsers_resume st (Inl e), None)
   \<and> (\<not> loading st \<and> hasMore st \<longrightarrow>
        \<not> hasMore (loadUsers st (Inl e)) \<and> loadUsers (loadUsers st (Inl e)) answer = loadUsers st (Inl e))
   \<and> (\<not> loading st \<longrightarrow>
        hasMore (fst (retryLoading st)) \<and> snd (retryLoading st) = Some (currentPage st, 10))
   \<and> (currentPage (loadUsers_resume st answer) \<noteq> currentPage st \<longrightarrow>
        (\<exists>response. answer = Inr (Some response) \<and> results response \<noteq> []))
   \<and> (currentPage (loadUsers st answer) \<noteq> currentPage st \<longrightarrow>
        (\<exists>response. answer = Inr (Some response) \<and> results response \<noteq> []))
   \<and> (results response \<noteq> [] \<longrightarrow>
        currentPage (loadUsers_resume st (Inr (Some response))) = currentPage st + 1)
   \<and> loadUsers_resume st (Inr None) = st\<lparr>loading := False\<rparr>"
proof -
  have guard: "loadUsers_start st = (st, None) \<and> loadUsers st answer = st"
    if "loading st \<or> \<not> hasMore st"
    using that by (auto simp: loadUsers_start_def loadUsers_def)
  have failed: "\<not> hasMore (loadUsers_resume st' (Inl e))" for st' :: "'a UserList"
    by (simp add: loadUsers_resume_def)
  have stuck: "loadUsers_start (loadUsers_resume st (Inl e)) = (loadUsers_resume st (Inl e), None)"
    using failed [of st] by (simp add: loadUsers_start_def)
  have whole: "\<not> hasMore (loadUsers st (Inl e))
      \<and> loadUsers (loadUsers st (Inl e)) answer = loadUsers st (Inl e)"
    if "\<not> loading st \<and> hasMore st"
  proof -
    from that have "loadUsers st (Inl e) =
        loadUsers_resume (st\<lparr>loading := True, error := None\<rparr>) (Inl e)"
      by (simp add: loadUsers_def loadUsers_start_def)
    with failed [of "st\<lparr>loading := True, error := None\<rparr>"]
    show ?thesis by (simp add: loadUsers_def loadUsers_start_def)
  qed
  have retry: "hasMore (fst (retryLoading st)) \<and> snd (retryLoading st) = Some (currentPage st, 10)"
    if "\<not> loading st"
    using that by (simp add: retryLoading_def loadUsers_start_def)
  have page: "\<exists>response. a = Inr (Some response) \<and> results response \<noteq> []"
    if "currentPage (loadUsers_resume st' a) \<noteq> currentPage st'"
    for st' :: "'a UserList" and a
    using that
    by (auto simp: loadUsers_resume_def Let_def split: sum.splits option.splits if_splits)
  have page_whole: "\<exists>response. answer = Inr (Some response) \<and> results response \<noteq> []"
    if "currentPage (loadUsers st answer) \<noteq> currentPage st"
  proof (cases "loading st \<or> \<not> hasMore st")
    case True
    with guard that show ?thesis by simp
  next
    case False
    then have "loadUsers st answer =
        loadUsers_resume (st\<lparr>loading := True, error := None\<rparr>) answer"
      by (simp add: loadUsers_def loadUsers_start_def)
    with that page [of "st\<lparr>loading := True, error := None\<rparr>" answer]
    show ?thesis by simp
  qed
  have incr: "currentPage (loadUsers_resume st (Inr (Some response))) = currentPage st + 1"
    if "results response \<noteq> []"
    using that by (simp add: loadUsers_resume_def)
  have undef: "loadUsers_resume st (Inr None) = st\<lparr>loading := False\<rparr>"
    by (simp add: loadUsers_resume_def)
  from guard failed [of st] stuck whole retry page [of st answer] page_whole incr undef
  show ?thesis by blast
qed

text \<open>
  The component before and during its first load.
\<close>

theorem loadUsers_guarded_witness:
  "loading in_flight
   \<and> loadUsers_start in_flight = (in_flight, None)
   \<and> (\<not> loading (new_UserList :: string UserList) \<and> hasMore (new_UserList :: string UserList))
   \<and> \<not> hasMore (loadUsers (new_UserList :: string UserList) (Inl (Other_value ''offline'')))
   \<and> snd (retryLoading (new_UserList :: string UserList)) = Some (1, 10)
   \<and> currentPage (loadUsers_resume in_flight (Inr (Some upstream_page))) \<noteq> currentPage in_flight
   \<and> currentPage (loadUsers new_UserList (Inr (Some upstream_page))) \<noteq>
        currentPage (new_UserList :: string UserList)
   \<and> results upstream_page \<noteq> []
   \<and> currentPage (loadUsers_resume in_flight (Inr (Some upstream_page))) = 2"
proof -
  have a: "loading in_flight" by (simp add: in_flight_eq)
  have b: "\<not> loading (new_UserList :: string UserList) \<and> hasMore (new_UserList :: string UserList)"
    by (simp add: new_UserList_def)
  have c: "results upstream_page \<noteq> []" by (simp add: upstream_page_def)
  have d: "currentPage (loadUsers_resume in_flight (Inr (Some upstream_page))) \<noteq>
      currentPage in_flight"
    by (simp add: loadUsers_resume_def in_flight_eq upstream_page_def)
  have e: "currentPage (loadUsers new_UserList (Inr (Some upstream_page))) \<noteq>
        currentPage (new_UserList :: string UserList)"
    by (simp add: loadUsers_def loadUsers_start_def loadUsers_resume_def new_UserList_def
        upstream_page_def)
  have f: "currentPage in_flight = 1" "currentPage (new_UserList :: string UserList) = 1"
    by (simp_all add: in_flight_eq new_UserList_def)
  from a b c d e f
    loadUsers_guarded [where st = in_flight and answer = "Inr (Some upstream_page)"
      and response = upstream_page]
    loadUsers_guarded [where st = "new_UserList :: string UserList"
      and answer = "Inr (Some upstream_page)" and e = "Other_value ''offline''"]
  show ?thesis by simp
qed

end
